theory Spec2Isabelle
  imports Complex_Main "HOL-Library.AList" "HOL-Library.Log_Nat"
begin

section \<open>Data model\<close>

text \<open>
  A token is a Python \<open>str\<close>. The pipeline is modelled on tokens of characters below
  256 (type \<^typ>\<open>string\<close>), on which the regular-expression class \<open>\d\<close> is exactly
  \<open>0-9\<close>; the normalizer is given a second time on lists of arbitrary code points, where
  \<open>\d\<close> matches every decimal digit of the Unicode database. A \<open>Counter\<close> and the
  \<open>defaultdict(Counter)\<close> that holds the chain are association lists in insertion order,
  as Python dictionaries are: a stored key keeps its place, a new key goes to the end
  (\<^const>\<open>AList.update\<close>), and a lookup reads the first entry of a key (\<^const>\<open>map_of\<close>).
  A float is a finite IEEE 754 double, held as its rational value, and every operation on
  floats rounds its exact result to the nearest double (section Scorer).
\<close>

type_synonym token = string
type_synonym counter = "(token \<times> nat) list"
type_synonym chain = "(token list \<times> counter) list"

datatype py_error = ZeroDivisionError

definition START :: token where
  "START = ''<START>''"

definition END :: token where
  "END = ''<END>''"

text \<open>\<open>xs[a:b]\<close> for indices \<open>0 \<le> a\<close>, \<open>0 \<le> b\<close>: the slice stops at the end of the list.\<close>

definition slice :: "'a list \<Rightarrow> nat \<Rightarrow> nat \<Rightarrow> 'a list" where
  "slice xs a b = take (b - a) (drop a xs)"

section \<open>Tokenizer and normalizer\<close>

text \<open>\<open>s.split(sep)\<close> for a one-character separator: the empty string gives one empty field.\<close>

fun py_split :: "char \<Rightarrow> string \<Rightarrow> string list" where
  "py_split sep [] = [[]]"
| "py_split sep (x # xs) =
     (if x = sep then [] # py_split sep xs
      else (case py_split sep xs of
              [] \<Rightarrow> [[x]]
            | w # ws \<Rightarrow> (x # w) # ws))"

definition lstrip :: "char \<Rightarrow> string \<Rightarrow> string" where
  "lstrip c s = dropWhile (\<lambda>x. x = c) s"

definition rstrip :: "char \<Rightarrow> string \<Rightarrow> string" where
  "rstrip c s = rev (dropWhile (\<lambda>x. x = c) (rev s))"

definition strip :: "char \<Rightarrow> string \<Rightarrow> string" where
  "strip c s = rstrip c (lstrip c s)"

definition tokenize :: "string \<Rightarrow> token list" where
  "tokenize endpoint =
     filter (\<lambda>token. token \<noteq> []) (py_split CHR ''/'' (strip CHR ''/'' endpoint))"

text \<open>The character classes of the two patterns, \<open>\d\<close> and \<open>[a-f0-9\-]\<close>.\<close>

definition is_digit :: "char \<Rightarrow> bool" where
  "is_digit c = (c \<in> set ''0123456789'')"

definition is_uuid_char :: "char \<Rightarrow> bool" where
  "is_uuid_char c = (c \<in> set ''abcdef0123456789-'')"

text \<open>
  \<open>re.fullmatch(r'\d+', token)\<close> holds of a non-empty string of digits, and
  \<open>re.fullmatch(r'[a-f0-9\-]{36}', token)\<close> of a string of 36 characters of the class.
\<close>

definition normalize_token :: "token \<Rightarrow> token" where
  "normalize_token token =
     (if token \<noteq> [] \<and> list_all is_digit token then ''<id>''
      else if length token = 36 \<and> list_all is_uuid_char token then ''<uuid>''
      else token)"

definition extract_normalized_tokens :: "string list \<Rightarrow> token list list" where
  "extract_normalized_tokens endpoints = map (map normalize_token \<circ> tokenize) endpoints"

subsection \<open>The normalizer on all code points\<close>

text \<open>
  A \<open>str\<close> holds code points beyond 255, and the pattern \<open>\d\<close> is compiled without
  \<open>re.ASCII\<close>: it matches every character of the category of decimal digits, \<open>0-9\<close>
  and, outside ASCII, those the Unicode database of the interpreter lists (the Arabic-Indic
  digits \<open>U+0660\<close> to \<open>U+0669\<close> among them). The part of that category outside
  ASCII is the parameter \<open>nd\<close>. The class \<open>[a-f0-9\-]\<close> is the same 17 characters as
  before.
\<close>

type_synonym code_point = nat

definition code_points :: "string \<Rightarrow> code_point list" where
  "code_points s = map of_char s"

definition is_decimal :: "(code_point \<Rightarrow> bool) \<Rightarrow> code_point \<Rightarrow> bool" where
  "is_decimal nd c = (c \<in> set (code_points ''0123456789'') \<or> 128 \<le> c \<and> nd c)"

definition is_uuid_code_point :: "code_point \<Rightarrow> bool" where
  "is_uuid_code_point c = (c \<in> set (code_points ''abcdef0123456789-''))"

definition normalize_token_unicode ::
    "(code_point \<Rightarrow> bool) \<Rightarrow> code_point list \<Rightarrow> code_point list" where
  "normalize_token_unicode nd token =
     (if token \<noteq> [] \<and> list_all (is_decimal nd) token then code_points ''<id>''
      else if length token = 36 \<and> list_all is_uuid_code_point token then code_points ''<uuid>''
      else token)"

section \<open>Chain builder\<close>

text \<open>\<open>counter[t]\<close>: a missing token reads as 0 and nothing is stored.\<close>

definition counter_get :: "counter \<Rightarrow> token \<Rightarrow> nat" where
  "counter_get c t = (case map_of c t of Some n \<Rightarrow> n | None \<Rightarrow> 0)"

text \<open>
  \<open>chain[key]\<close> on the \<open>defaultdict(Counter)\<close>: a missing key is stored with an empty
  counter, and that counter is returned. The chain after the lookup is part of the result.
\<close>

definition chain_get :: "chain \<Rightarrow> token list \<Rightarrow> counter \<times> chain" where
  "chain_get ch key =
     (case map_of ch key of
        Some c \<Rightarrow> (c, ch)
      | None \<Rightarrow> ([], ch @ [(key, [])]))"

text \<open>\<open>markov_chain[key][next_token] += 1\<close>\<close>

definition chain_incr :: "chain \<Rightarrow> token list \<Rightarrow> token \<Rightarrow> chain" where
  "chain_incr ch key next_token =
     (case chain_get ch key of
        (c, ch1) \<Rightarrow>
          AList.update key (AList.update next_token (counter_get c next_token + 1) c) ch1)"

definition pad :: "nat \<Rightarrow> token list \<Rightarrow> token list" where
  "pad order tokens = replicate order START @ tokens @ [END]"

text \<open>The body of the outer loop of \<open>build_markov_chain\<close>, for one token sequence.\<close>

definition add_sequence :: "nat \<Rightarrow> token list \<Rightarrow> chain \<Rightarrow> chain" where
  "add_sequence order tokens0 ch =
     (let tokens = pad order tokens0
      in fold (\<lambda>i ch'. chain_incr ch' (slice tokens i (i + order)) (tokens ! (i + order)))
           [0 ..< length tokens - order] ch)"

definition build_markov_chain :: "token list list \<Rightarrow> nat \<Rightarrow> chain" where
  "build_markov_chain token_sequences order = fold (add_sequence order) token_sequences []"

section \<open>Candidate generator\<close>

text \<open>
  \<open>counter.most_common(n)\<close>: the \<open>n\<close> entries of largest count, largest first, entries of
  equal count in insertion order (a stable sort).
\<close>

definition most_common :: "nat \<Rightarrow> counter \<Rightarrow> (token \<times> nat) list" where
  "most_common n c = take n (sort_key (\<lambda>(t, k). - int k) c)"

definition predict_next_tokens :: "chain \<Rightarrow> token list \<Rightarrow> nat \<Rightarrow> (token \<times> nat) list" where
  "predict_next_tokens ch current_tokens top_n =
     (case map_of ch current_tokens of
        Some c \<Rightarrow> most_common top_n c
      | None \<Rightarrow> [])"

text \<open>\<open>sep.join(xs)\<close>\<close>

fun join :: "string \<Rightarrow> string list \<Rightarrow> string" where
  "join sep [] = []"
| "join sep [x] = x"
| "join sep (x # y # ys) = x @ sep @ join sep (y # ys)"

text \<open>\<open>tokens[max(0, i - order + 1):i+1]\<close>, the state looked up at position \<open>i\<close>.\<close>

definition current_state :: "token list \<Rightarrow> nat \<Rightarrow> nat \<Rightarrow> token list" where
  "current_state tokens i order =
     slice tokens (nat (max 0 (int i - int order + 1))) (i + 1)"

definition candidate_path :: "token list \<Rightarrow> nat \<Rightarrow> token \<Rightarrow> string" where
  "candidate_path tokens i t = ''/'' @ join ''/'' (slice tokens 0 (i + 1) @ [t])"

definition emit :: "token list \<Rightarrow> nat \<Rightarrow> string list \<Rightarrow> token \<Rightarrow> string set \<Rightarrow> string set" where
  "emit tokens i common_words t candidates =
     (if t = END
      then fold (\<lambda>word cs. insert (candidate_path tokens i word) cs) common_words candidates
      else insert (candidate_path tokens i t) candidates)"

definition generate_candidates ::
    "token list list \<Rightarrow> chain \<Rightarrow> string list \<Rightarrow> nat \<Rightarrow> string set" where
  "generate_candidates token_sequences ch common_words order =
     fold (\<lambda>tokens cs.
            fold (\<lambda>i cs'.
                   fold (\<lambda>(t, _). emit tokens i common_words t)
                     (predict_next_tokens ch (current_state tokens i order) 3) cs')
              [0 ..< length tokens] cs)
       token_sequences {}"

section \<open>Scorer\<close>

subsection \<open>Vocabulary\<close>

text \<open>The vocabulary computed when \<open>vocab_size\<close> is \<open>None\<close>, and by \<open>main\<close>.\<close>

definition vocab :: "chain \<Rightarrow> token set" where
  "vocab ch = fold (\<lambda>(key, c) v. v \<union> set (map fst c)) ch {}"

definition vocab_size_of :: "nat option \<Rightarrow> chain \<Rightarrow> nat" where
  "vocab_size_of vocab_size ch =
     (case vocab_size of None \<Rightarrow> card (vocab ch) | Some v \<Rightarrow> v)"

subsection \<open>Floats\<close>

text \<open>
  The scorer computes with Python floats, IEEE 754 doubles. A finite double is held as the
  rational number it denotes, and an operation computes the exact result and rounds it to
  the nearest double, ties to the even significand (\<open>float_round\<close>): with the magnitude
  counted in units of \<open>1 / 2 ^ 1074\<close>, the smallest subnormal, a value below \<open>2 ^ 53\<close>
  units is rounded to a whole number of units, and a larger one to 53 significant bits
  (\<open>float_scale\<close> is the number of bits dropped). The arguments \<open>alpha\<close> and
  \<open>threshold\<close> are finite floats. Infinities and NaN are not in the model: it is the
  arithmetic of the scorer as long as no intermediate value reaches \<open>2 ^ 1024\<close>, and
  \<open>alpha * vocab_size\<close> added to a count is the largest of them. The two zeros are one
  value; both raise when divided by.
\<close>

definition round_half_even :: "rat \<Rightarrow> int" where
  "round_half_even x =
     (let n = \<lfloor>x\<rfloor>; r = x - of_int n
      in if r < 1 / 2 then n else if 1 / 2 < r then n + 1 else if even n then n else n + 1)"

definition float_scale :: "rat \<Rightarrow> nat" where
  "float_scale y = nat (bitlen \<lfloor>y\<rfloor> - 53)"

definition float_round :: "rat \<Rightarrow> rat" where
  "float_round x =
     (let y = \<bar>x\<bar> * 2 ^ 1074;
          k = float_scale y
      in sgn x * (of_int (round_half_even (y / 2 ^ k)) * 2 ^ k / 2 ^ 1074))"

text \<open>
  An \<open>int\<close> that meets a float in \<open>+\<close> or \<open>*\<close> is converted to the nearest double first.
\<close>

definition float_of_nat :: "nat \<Rightarrow> rat" where
  "float_of_nat n = float_round (of_nat n)"

definition float_add :: "rat \<Rightarrow> rat \<Rightarrow> rat" where
  "float_add a b = float_round (a + b)"

definition float_mul :: "rat \<Rightarrow> rat \<Rightarrow> rat" where
  "float_mul a b = float_round (a * b)"

definition float_div :: "rat \<Rightarrow> rat \<Rightarrow> py_error + rat" where
  "float_div a b = (if b = 0 then Inl ZeroDivisionError else Inr (float_round (a / b)))"

subsection \<open>The probability of a candidate\<close>

text \<open>
  The loop \<open>for i in range(order, len(tokens))\<close>. Both lookups \<open>chain[key]\<close> of an
  iteration go through the \<open>defaultdict\<close>; a zero denominator raises.
\<close>

fun score_loop ::
    "token list \<Rightarrow> nat \<Rightarrow> nat \<Rightarrow> rat \<Rightarrow> nat list \<Rightarrow> rat \<Rightarrow> chain \<Rightarrow> (py_error + rat) \<times> chain" where
  "score_loop tokens order vocab_size alpha [] prob ch = (Inr prob, ch)"
| "score_loop tokens order vocab_size alpha (i # is) prob ch =
     (let key = slice tokens (i - order) i;
          next_token = tokens ! i
      in case chain_get ch key of (c1, ch1) \<Rightarrow>
         let count_next = counter_get c1 next_token
         in case chain_get ch1 key of (c2, ch2) \<Rightarrow>
            let total_count = sum_list (map snd c2)
            in case float_div (float_add (float_of_nat count_next) alpha)
                      (float_add (float_of_nat total_count)
                         (float_mul alpha (float_of_nat vocab_size))) of
                 Inl e \<Rightarrow> (Inl e, ch2)
               | Inr q \<Rightarrow>
                   score_loop tokens order vocab_size alpha is (float_mul prob q) ch2)"

definition candidate_probability ::
    "string \<Rightarrow> chain \<Rightarrow> nat \<Rightarrow> nat option \<Rightarrow> rat \<Rightarrow> (py_error + rat) \<times> chain" where
  "candidate_probability candidate ch order vocab_size alpha =
     (let tokens = pad order (tokenize candidate)
      in score_loop tokens order (vocab_size_of vocab_size ch) alpha
           [order ..< length tokens] 1 ch)"

text \<open>
  Step 5 of \<open>main\<close>: every candidate is scored against the chain the previous scoring left,
  and kept when its probability reaches the threshold, a finite float. The list of
  candidates stands for the iteration order of the set.
\<close>

fun score_candidates ::
    "string list \<Rightarrow> chain \<Rightarrow> nat \<Rightarrow> rat \<Rightarrow> (string \<times> rat) list
       \<Rightarrow> (py_error + (string \<times> rat) list) \<times> chain" where
  "score_candidates [] ch vocab_size threshold scored = (Inr scored, ch)"
| "score_candidates (candidate # cs) ch vocab_size threshold scored =
     (case candidate_probability candidate ch 2 (Some vocab_size) 1 of
        (Inl e, ch') \<Rightarrow> (Inl e, ch')
      | (Inr prob, ch') \<Rightarrow>
          score_candidates cs ch' vocab_size threshold
            (if prob \<ge> threshold then scored @ [(candidate, prob)] else scored))"

section \<open>Validator\<close>

text \<open>
  What \<open>requests.get\<close> does is a parameter of the model: it answers with a status code or
  raises one of the exceptions of the transport.
\<close>

datatype transport_failure = Timeout | ConnectionError | DNSFailure | TLSFailure

datatype http_outcome = Response int | Raised transport_failure

definition validate_candidate ::
    "(string \<Rightarrow> http_outcome) \<Rightarrow> string \<Rightarrow> string \<Rightarrow> string \<Rightarrow> bool \<times> int option" where
  "validate_candidate http_get base_url candidate static_pattern =
     (let url = rstrip CHR ''/'' base_url @ candidate @ static_pattern
      in case http_get url of
           Response status_code \<Rightarrow>
             if status_code \<in> set [200, 401, 403] then (True, Some status_code)
             else (False, Some status_code)
         | Raised e \<Rightarrow> (False, None))"

section \<open>Definitions used to state the properties\<close>

text \<open>
  The characters the specification calls hex digits and hyphens, with the upper-case
  letters it includes.
\<close>

definition hex_or_hyphen :: "char \<Rightarrow> bool" where
  "hex_or_hyphen c = (c \<in> set ''0123456789abcdefABCDEF-'')"

text \<open>The Arabic-Indic digits, \<open>U+0660\<close> (1632) to \<open>U+0669\<close> (1641).\<close>

definition arabic_indic :: "code_point \<Rightarrow> bool" where
  "arabic_indic c = (1632 \<le> c \<and> c \<le> 1641)"

text \<open>
  The counter a context reads as, whether the context is stored or not, and the sum of
  its counts, \<open>sum(chain[key].values())\<close>.
\<close>

definition counts :: "chain \<Rightarrow> token list \<Rightarrow> counter" where
  "counts ch key = (case map_of ch key of Some c \<Rightarrow> c | None \<Rightarrow> [])"

definition total_count :: "chain \<Rightarrow> token list \<Rightarrow> nat" where
  "total_count ch key = sum_list (map snd (counts ch key))"

text \<open>
  The specification's words for the chain counts: every window of \<open>n\<close> consecutive
  tokens of a sequence, and the number of windows of length \<open>k + 1\<close> of the padded
  sequences whose first \<open>k\<close> tokens are the context \<open>c\<close>.
\<close>

definition spec_windows :: "nat \<Rightarrow> 'a list \<Rightarrow> 'a list list" where
  "spec_windows n xs = map (\<lambda>i. take n (drop i xs)) [0 ..< length xs + 1 - n]"

definition window_count :: "token list list \<Rightarrow> nat \<Rightarrow> token list \<Rightarrow> nat" where
  "window_count token_sequences k c =
     sum_list (map (\<lambda>tokens. length (filter (\<lambda>w. take k w = c) (spec_windows (k + 1) (pad k tokens))))
                 token_sequences)"

text \<open>
  The factor of one window of the scorer, from the counts the chain reads as, and the
  factors of all windows of a padded token list, in the order of the loop.
\<close>

definition window_term :: "chain \<Rightarrow> nat \<Rightarrow> rat \<Rightarrow> token list \<Rightarrow> token \<Rightarrow> py_error + rat" where
  "window_term ch vocab_size alpha key next_token =
     float_div (float_add (float_of_nat (counter_get (counts ch key) next_token)) alpha)
       (float_add (float_of_nat (total_count ch key))
          (float_mul alpha (float_of_nat vocab_size)))"

definition window_terms ::
    "chain \<Rightarrow> nat \<Rightarrow> rat \<Rightarrow> nat \<Rightarrow> token list \<Rightarrow> nat list \<Rightarrow> (py_error + rat) list" where
  "window_terms ch vocab_size alpha order tokens is =
     map (\<lambda>i. window_term ch vocab_size alpha (slice tokens (i - order) i) (tokens ! i)) is"

text \<open>The running product \<open>prob *= \<dots>\<close> over a list of factors; the first error ends it.\<close>

fun multiply_terms :: "(py_error + rat) list \<Rightarrow> rat \<Rightarrow> py_error + rat" where
  "multiply_terms [] prob = Inr prob"
| "multiply_terms (Inl e # ts) prob = Inl e"
| "multiply_terms (Inr q # ts) prob = multiply_terms ts (float_mul prob q)"

text \<open>
  A chain extended by contexts that were not stored, each with an empty counter: what the
  lookups of the scorer can add.
\<close>

definition empty_entries :: "token list list \<Rightarrow> chain" where
  "empty_entries ks = map (\<lambda>k. (k, [])) ks"

definition extends :: "chain \<Rightarrow> chain \<Rightarrow> bool" where
  "extends ch ch' =
     (\<exists>ks. ch' = ch @ empty_entries ks \<and> distinct ks \<and> set ks \<inter> fst ` set ch = {})"

text \<open>Four seeds, \<open>/a\<close>, \<open>/b\<close>, \<open>/c\<close> and \<open>/a\<close> again, already tokenized.\<close>

definition seeds :: "token list list" where
  "seeds = [[''a''], [''b''], [''c''], [''a'']]"

section \<open>Rounding\<close>

lemma round_half_even_int: "round_half_even (of_int n) = n"
  by (simp add: round_half_even_def)

lemma round_half_even_lower: "\<lfloor>x\<rfloor> \<le> round_half_even x"
  by (simp add: round_half_even_def Let_def)

lemma round_half_even_upper: "round_half_even x \<le> \<lfloor>x\<rfloor> + 1"
  by (simp add: round_half_even_def Let_def)

lemma round_half_even_ge: "of_int n \<le> x \<Longrightarrow> n \<le> round_half_even x"
proof -
  assume "of_int n \<le> x"
  then have "n \<le> \<lfloor>x\<rfloor>" by (simp add: le_floor_iff)
  with round_half_even_lower [of x] show ?thesis by simp
qed

lemma round_half_even_le:
  assumes "x \<le> of_int n"
  shows "round_half_even x \<le> n"
proof (cases "x = of_int n")
  case True
  then show ?thesis by (simp add: round_half_even_int)
next
  case False
  with assms have "x < of_int n" by simp
  then have "\<lfloor>x\<rfloor> < n" by (simp add: floor_less_iff)
  with round_half_even_upper [of x] show ?thesis by simp
qed

lemma round_half_even_mono:
  assumes "x \<le> y"
  shows "round_half_even x \<le> round_half_even y"
proof (cases "\<lfloor>x\<rfloor> = \<lfloor>y\<rfloor>")
  case True
  with assms have "x - of_int \<lfloor>x\<rfloor> \<le> y - of_int \<lfloor>y\<rfloor>" by simp
  with True show ?thesis by (auto simp add: round_half_even_def Let_def)
next
  case False
  with assms have "\<lfloor>x\<rfloor> < \<lfloor>y\<rfloor>" using floor_mono [of x y] by simp
  with round_half_even_upper [of x] round_half_even_lower [of y] show ?thesis by simp
qed

lemma float_scale_upper:
  assumes "0 \<le> y"
  shows "y < 2 ^ (float_scale y + 53)"
proof -
  let ?Y = "\<lfloor>y\<rfloor>"
  have "?Y < 2 ^ (float_scale y + 53)"
  proof (cases "?Y = 0")
    case True
    then show ?thesis by simp
  next
    case False
    with assms have pos: "0 < ?Y" by (simp add: order_less_le)
    have "bitlen ?Y \<le> int (float_scale y + 53)" by (simp add: float_scale_def)
    then have "?Y < 2 ^ nat (int (float_scale y + 53))" by (simp only: bitlen_le_iff_power)
    then show ?thesis by (simp only: nat_int)
  qed
  then have "?Y < \<lfloor>(2::rat) ^ (float_scale y + 53)\<rfloor>" by simp
  then show ?thesis by (simp only: floor_less_cancel)
qed

lemma float_scale_lower:
  assumes "0 < float_scale y"
  shows "2 ^ (float_scale y + 52) \<le> y"
proof -
  let ?Y = "\<lfloor>y\<rfloor>"
  from assms have b: "bitlen ?Y = int (float_scale y) + 53"
    by (simp add: float_scale_def)
  then have "int (float_scale y) + 53 \<le> bitlen ?Y" by simp
  then have "2 ^ (nat (int (float_scale y) + 53) - 1) \<le> ?Y"
    by (simp add: bitlen_ge_iff_power)
  moreover have "nat (int (float_scale y) + 53) - 1 = float_scale y + 52" by simp
  ultimately have "(2::int) ^ (float_scale y + 52) \<le> ?Y" by simp
  then have "of_int ((2::int) ^ (float_scale y + 52)) \<le> y" by (simp only: le_floor_iff)
  then show ?thesis by simp
qed

lemma float_round_zero: "float_round 0 = 0"
  by (simp add: float_round_def)

lemma float_round_pos_eq:
  assumes "0 < x"
  shows "float_round x =
           of_int (round_half_even (x * 2 ^ 1074 / 2 ^ float_scale (x * 2 ^ 1074)))
             * 2 ^ float_scale (x * 2 ^ 1074) / 2 ^ 1074"
proof -
  from assms have "\<bar>x\<bar> = x" and "sgn x = 1" by simp_all
  then show ?thesis by (simp only: float_round_def Let_def mult_1)
qed


lemma float_round_nonneg:
  assumes "0 \<le> x"
  shows "0 \<le> float_round x"
proof (cases "x = 0")
  case True
  then show ?thesis by (simp add: float_round_zero)
next
  case False
  with assms have pos: "0 < x" by simp
  let ?y = "x * 2 ^ 1074"
  have "(of_int 0 :: rat) \<le> ?y / 2 ^ float_scale ?y" using assms by simp
  then have "0 \<le> round_half_even (?y / 2 ^ float_scale ?y)" by (rule round_half_even_ge)
  then have "(0::rat) \<le> of_int (round_half_even (?y / 2 ^ float_scale ?y))" by simp
  then have "(0::rat) \<le> of_int (round_half_even (?y / 2 ^ float_scale ?y))
                 * 2 ^ float_scale ?y / 2 ^ 1074"
    by (intro divide_nonneg_pos mult_nonneg_nonneg) simp_all
  then show ?thesis by (simp only: float_round_pos_eq [OF pos])
qed

lemma float_round_exact:
  fixes m e :: nat
  assumes "m < 2 ^ 53" and "e \<le> 1074"
  shows "float_round (of_nat m / 2 ^ e) = of_nat m / 2 ^ e"
proof (cases "m = 0")
  case True
  then show ?thesis by (simp add: float_round_zero)
next
  case False
  define d where "d = 1074 - e"
  define x :: rat where "x = of_nat m / 2 ^ e"
  define E :: rat where "E = 2 ^ 1074"
  define y where "y = x * E"
  define k where "k = float_scale y"
  have "e + d = 1074" using assms(2) by (simp add: d_def)
  then have "E = 2 ^ (e + d)" by (simp only: E_def)
  then have E: "E = 2 ^ e * 2 ^ d" by (simp only: power_add)
  have xpos: "0 < x" using False by (simp add: x_def)
  have y: "y = of_nat m * 2 ^ d" by (simp add: y_def x_def E)
  have "(of_nat m :: rat) < 2 ^ 53" using assms(1) by (simp add: of_nat_less_numeral_power_cancel_iff)
  then have "y < 2 ^ 53 * 2 ^ d" unfolding y by simp
  then have ylt: "y < 2 ^ (53 + d)" by (simp only: power_add)
  have kd: "k \<le> d"
  proof (rule ccontr)
    assume "\<not> k \<le> d"
    then have "d < k" by simp
    then have "0 < float_scale y" by (simp add: k_def)
    then have "2 ^ (k + 52) \<le> y" unfolding k_def by (rule float_scale_lower)
    moreover have "(2::rat) ^ (53 + d) \<le> 2 ^ (k + 52)"
      using \<open>d < k\<close> by (intro power_increasing) simp_all
    ultimately show False using ylt by simp
  qed
  then have "(2::rat) ^ d = 2 ^ (d - k) * 2 ^ k" by (simp flip: power_add)
  then have yk: "y = of_int (int m * 2 ^ (d - k)) * 2 ^ k" by (simp add: y)
  then have "y / 2 ^ k = of_int (int m * 2 ^ (d - k))" by simp
  then have "round_half_even (y / 2 ^ k) = int m * 2 ^ (d - k)"
    by (simp only: round_half_even_int)
  then have "of_int (round_half_even (y / 2 ^ k)) * 2 ^ k / E = y / E"
    using yk by simp
  moreover have "y / E = x" by (simp add: y_def E)
  moreover have "float_round x = of_int (round_half_even (y / 2 ^ k)) * 2 ^ k / E"
    unfolding y_def k_def E_def by (rule float_round_pos_eq [OF xpos])
  ultimately show ?thesis by (simp add: x_def)
qed

lemma float_round_of_nat: "n < 2 ^ 53 \<Longrightarrow> float_round (of_nat n) = of_nat n"
  using float_round_exact [of n 0] by simp

lemma float_round_one: "float_round 1 = 1"
  using float_round_of_nat [of 1] by simp

lemma float_round_mono:
  assumes "0 \<le> x" and "x \<le> x'"
  shows "float_round x \<le> float_round x'"
proof (cases "x = 0")
  case True
  with assms show ?thesis by (simp add: float_round_zero float_round_nonneg)
next
  case False
  with assms have pos: "0 < x" and pos': "0 < x'" by simp_all
  define E :: rat where "E = 2 ^ 1074"
  define y where "y = x * E"
  define y' where "y' = x' * E"
  define k where "k = float_scale y"
  define k' where "k' = float_scale y'"
  define R where "R = round_half_even (y / 2 ^ k)"
  define R' where "R' = round_half_even (y' / 2 ^ k')"
  have Epos: "0 < E" by (simp add: E_def)
  have f: "float_round x = of_int R * 2 ^ k / E"
    unfolding R_def y_def k_def E_def by (rule float_round_pos_eq [OF pos])
  have f': "float_round x' = of_int R' * 2 ^ k' / E"
    unfolding R'_def y'_def k'_def E_def by (rule float_round_pos_eq [OF pos'])
  have y0: "0 \<le> y" using assms(1) Epos by (simp add: y_def)
  have yy: "y \<le> y'" using assms(2) Epos by (simp add: y_def y'_def)
  have y0': "0 \<le> y'" using y0 yy by simp
  have up: "y < 2 ^ (k + 53)" unfolding k_def using y0 by (rule float_scale_upper)
  have up': "y' < 2 ^ (k' + 53)" unfolding k'_def using y0' by (rule float_scale_upper)
  have kk: "k \<le> k'"
  proof (rule ccontr)
    assume "\<not> k \<le> k'"
    then have lt: "k' < k" by simp
    then have "0 < float_scale y" by (simp add: k_def)
    then have "2 ^ (k + 52) \<le> y" unfolding k_def by (rule float_scale_lower)
    moreover have "(2::rat) ^ (k' + 53) \<le> 2 ^ (k + 52)"
      using lt by (intro power_increasing) simp_all
    ultimately show False using up' yy by simp
  qed
  have "of_int R * (2::rat) ^ k \<le> of_int R' * 2 ^ k'"
  proof (cases "k = k'")
    case True
    have "y / 2 ^ k \<le> y' / 2 ^ k" using yy by (simp add: divide_right_mono)
    then have "R \<le> R'" unfolding R_def R'_def True [symmetric] by (rule round_half_even_mono)
    then show ?thesis by (simp add: True [symmetric])
  next
    case False
    with kk have lt: "k < k'" by simp
    have "y / 2 ^ k < 2 ^ 53"
      using up by (simp add: power_add pos_divide_less_eq)
    then have "y / 2 ^ k \<le> of_int (2 ^ 53)" by simp
    then have "R \<le> 2 ^ 53" unfolding R_def by (rule round_half_even_le)
    then have "(of_int R :: rat) \<le> 2 ^ 53" by (simp add: of_int_le_numeral_power_cancel_iff)
    then have "of_int R * (2::rat) ^ k \<le> 2 ^ 53 * 2 ^ k" by simp
    also have "\<dots> = 2 ^ (53 + k)" by (simp only: power_add)
    also have "\<dots> \<le> 2 ^ (52 + k')" using lt by (intro power_increasing) simp_all
    also have "\<dots> = 2 ^ 52 * 2 ^ k'" by (simp only: power_add)
    also have "\<dots> \<le> of_int R' * 2 ^ k'"
    proof -
      from lt have "0 < float_scale y'" by (simp add: k'_def)
      then have "2 ^ (k' + 52) \<le> y'" unfolding k'_def by (rule float_scale_lower)
      then have "2 ^ 52 \<le> y' / 2 ^ k'" by (simp add: power_add pos_le_divide_eq mult.commute)
      then have "of_int (2 ^ 52) \<le> y' / 2 ^ k'" by simp
      then have "2 ^ 52 \<le> R'" unfolding R'_def by (rule round_half_even_ge)
      then have "(2::rat) ^ 52 \<le> of_int R'" by (simp add: numeral_power_le_of_int_cancel_iff)
      then show ?thesis by simp
    qed
    finally show ?thesis .
  qed
  then show ?thesis unfolding f f' using Epos by (simp add: divide_right_mono)
qed

lemma float_round_le_one: "0 \<le> x \<Longrightarrow> x \<le> 1 \<Longrightarrow> float_round x \<le> 1"
  using float_round_mono [of x 1] by (simp add: float_round_one)

lemma float_round_ge_one: "1 \<le> x \<Longrightarrow> 1 \<le> float_round x"
  using float_round_mono [of 1 x] by (simp add: float_round_one)


section \<open>Normalization\<close>

lemma normalize_token_id: "normalize_token ''<id>'' = ''<id>''"
  by (simp add: normalize_token_def is_digit_def)

lemma normalize_token_uuid_fix: "normalize_token ''<uuid>'' = ''<uuid>''"
  by (simp add: normalize_token_def is_digit_def is_uuid_char_def)

text \<open>
  Claim C9. Normalization is idempotent: normalizing a normalized token changes nothing,
  and the reserved outputs \<open><id>\<close> and \<open><uuid>\<close> are fixed points.
\<close>

theorem normalize_token_idempotent:
  "normalize_token (normalize_token t) = normalize_token t
   \<and> normalize_token ''<id>'' = ''<id>'' \<and> normalize_token ''<uuid>'' = ''<uuid>''"
proof -
  have "normalize_token (normalize_token t) = normalize_token t"
  proof (cases "t \<noteq> [] \<and> list_all is_digit t")
    case True
    then have "normalize_token t = ''<id>''" by (simp add: normalize_token_def)
    then show ?thesis by (simp add: normalize_token_id)
  next
    case nd: False
    show ?thesis
    proof (cases "length t = 36 \<and> list_all is_uuid_char t")
      case True
      with nd have "normalize_token t = ''<uuid>''" by (simp add: normalize_token_def)
      then show ?thesis by (simp add: normalize_token_uuid_fix)
    next
      case False
      with nd have "normalize_token t = t" by (auto simp add: normalize_token_def)
      then show ?thesis by simp
    qed
  qed
  then show ?thesis by (simp add: normalize_token_id normalize_token_uuid_fix)
qed

lemma uuid_code_point_ascii: "is_uuid_code_point c \<Longrightarrow> c < 128"
  by (auto simp add: is_uuid_code_point_def code_points_def)

lemma uuid_decimal:
  "is_uuid_code_point c \<Longrightarrow> is_decimal nd c \<Longrightarrow> c \<in> set (code_points ''0123456789'')"
  using uuid_code_point_ascii [of c] by (simp add: is_decimal_def)

lemma uuid_decimal_all:
  assumes "list_all is_uuid_code_point t" and "list_all (is_decimal nd) t"
  shows "set t \<subseteq> set (code_points ''0123456789'')"
  using assms unfolding list_all_iff by (blast intro: uuid_decimal)

lemma code_points_member: "of_char c \<in> set (code_points s) \<longleftrightarrow> c \<in> set s"
  by (auto simp add: code_points_def)

lemma is_decimal_of_char:
  assumes "\<forall>c<256. \<not> nd c"
  shows "is_decimal nd (of_char c) = is_digit c"
proof -
  have "\<not> nd (of_char c)" using assms by simp
  then show ?thesis
    unfolding is_decimal_def is_digit_def code_points_member by simp
qed

lemma is_uuid_code_point_of_char: "is_uuid_code_point (of_char c) = is_uuid_char c"
  unfolding is_uuid_code_point_def is_uuid_char_def code_points_member ..

text \<open>
  On tokens of characters below 256, where the Unicode database has no decimal digit but
  \<open>0-9\<close>, the two normalizers are the same function.
\<close>

lemma normalize_token_latin1:
  assumes "\<forall>c<256. \<not> nd c"
  shows "normalize_token_unicode nd (code_points t) = code_points (normalize_token t)"
proof -
  have d: "list_all (is_decimal nd) (code_points t) = list_all is_digit t"
    by (simp add: code_points_def list_all_iff is_decimal_of_char [OF assms])
  have u: "list_all is_uuid_code_point (code_points t) = list_all is_uuid_char t"
    by (simp add: code_points_def list_all_iff is_uuid_code_point_of_char)
  have e: "code_points t \<noteq> [] \<longleftrightarrow> t \<noteq> []" by (simp add: code_points_def)
  have l: "length (code_points t) = length t" by (simp add: code_points_def)
  show ?thesis
    unfolding normalize_token_unicode_def normalize_token_def d u e l by simp
qed

text \<open>
  Claim C3, as the code has it. A token of 36 characters drawn from the lower-case hex
  letters \<open>a-f\<close>, the digits \<open>0-9\<close> and the hyphen, not all of them digits \<open>0-9\<close>,
  becomes \<open><uuid>\<close>. A token of 36 characters with any other character, an upper-case
  \<open>A-F\<close> included, is returned unchanged, unless all its characters are decimal digits
  in the sense of \<open>\d\<close>, ASCII or not: then it becomes \<open><id>\<close>.
\<close>

theorem normalize_token_uuid:
  assumes "length t = 36"
  shows "(set t \<subseteq> set (code_points ''abcdef0123456789-'')
            \<and> \<not> set t \<subseteq> set (code_points ''0123456789'')
            \<longrightarrow> normalize_token_unicode nd t = code_points ''<uuid>'')
         \<and> (\<not> set t \<subseteq> set (code_points ''abcdef0123456789-'')
            \<longrightarrow> normalize_token_unicode nd t
                  = (if list_all (is_decimal nd) t then code_points ''<id>'' else t))"
proof -
  have u: "list_all is_uuid_code_point t \<longleftrightarrow> set t \<subseteq> set (code_points ''abcdef0123456789-'')"
    unfolding list_all_iff is_uuid_code_point_def subset_eq ..
  have ne: "t \<noteq> []" using assms by auto
  have a: "normalize_token_unicode nd t = code_points ''<uuid>''"
    if "list_all is_uuid_code_point t" and "\<not> set t \<subseteq> set (code_points ''0123456789'')"
  proof -
    have "\<not> list_all (is_decimal nd) t" using that uuid_decimal_all by blast
    with that(1) assms show ?thesis by (simp add: normalize_token_unicode_def)
  qed
  have b: "normalize_token_unicode nd t
             = (if list_all (is_decimal nd) t then code_points ''<id>'' else t)"
    if "\<not> list_all is_uuid_code_point t"
    using that ne by (simp add: normalize_token_unicode_def)
  from a b show ?thesis unfolding u by blast
qed

theorem normalize_token_uuid_witness:
  "normalize_token_unicode arabic_indic (code_points ''123e4567-e89b-12d3-a456-426614174000'')
     = code_points ''<uuid>''
   \<and> normalize_token_unicode arabic_indic (code_points ''123e4567-e89b-12d3-a456-42661417400g'')
     = code_points ''123e4567-e89b-12d3-a456-42661417400g''
   \<and> normalize_token_unicode arabic_indic (replicate 35 49 @ [1635]) = code_points ''<id>''"
proof -
  let ?t = "''123e4567-e89b-12d3-a456-426614174000''"
  let ?u = "''123e4567-e89b-12d3-a456-42661417400g''"
  let ?v = "replicate 35 49 @ [1635] :: code_point list"
  let ?U = "set (code_points ''abcdef0123456789-'')"
  let ?D = "set (code_points ''0123456789'')"
  have lt: "length (code_points ?t) = 36" by (simp add: code_points_def)
  have lu: "length (code_points ?u) = 36" by (simp add: code_points_def)
  have lv: "length ?v = 36" by simp
  have "set ?t \<subseteq> set ''abcdef0123456789-''" by simp
  then have t1: "set (code_points ?t) \<subseteq> ?U"
    unfolding subset_eq code_points_def by (auto simp only: set_map)
  have "of_char CHR ''e'' \<in> set (code_points ?t)"
    unfolding code_points_member by simp
  moreover have "(of_char CHR ''e'' :: nat) \<notin> ?D"
    unfolding code_points_member by simp
  ultimately have t2: "\<not> set (code_points ?t) \<subseteq> ?D" by blast
  have "of_char CHR ''g'' \<in> set (code_points ?u)"
    unfolding code_points_member by simp
  moreover have "(of_char CHR ''g'' :: nat) \<notin> ?U"
    unfolding code_points_member by simp
  ultimately have u1: "\<not> set (code_points ?u) \<subseteq> ?U" by blast
  have "of_char CHR ''g'' \<in> set (code_points ?u)"
    unfolding code_points_member by simp
  moreover have "\<not> is_decimal arabic_indic (of_char CHR ''g'')"
    by (simp add: is_decimal_def arabic_indic_def code_points_def)
  ultimately have u2: "\<not> list_all (is_decimal arabic_indic) (code_points ?u)"
    unfolding list_all_iff by blast
  have "(1635::nat) \<notin> ?U" by (simp add: code_points_def)
  then have v1: "\<not> set ?v \<subseteq> ?U" by simp
  have "is_decimal arabic_indic 49" by (simp add: is_decimal_def code_points_def)
  moreover have "is_decimal arabic_indic 1635" by (simp add: is_decimal_def arabic_indic_def)
  ultimately have v2: "list_all (is_decimal arabic_indic) ?v"
    by (simp add: list_all_iff)
  from normalize_token_uuid [OF lt, of arabic_indic] t1 t2
  have a: "normalize_token_unicode arabic_indic (code_points ?t) = code_points ''<uuid>''"
    by blast
  from normalize_token_uuid [OF lu, of arabic_indic] u1
  have "normalize_token_unicode arabic_indic (code_points ?u)
          = (if list_all (is_decimal arabic_indic) (code_points ?u) then code_points ''<id>''
             else code_points ?u)"
    by blast
  with u2 have b: "normalize_token_unicode arabic_indic (code_points ?u) = code_points ?u"
    by (simp only: if_False)
  from normalize_token_uuid [OF lv, of arabic_indic] v1
  have "normalize_token_unicode arabic_indic ?v
          = (if list_all (is_decimal arabic_indic) ?v then code_points ''<id>'' else ?v)"
    by blast
  with v2 have c: "normalize_token_unicode arabic_indic ?v = code_points ''<id>''"
    by (simp only: if_True)
  from a b c show ?thesis by blast
qed

text \<open>
  The claim as the specification states it fails on a UUID written in upper case: it has
  36 characters, all hex digits or hyphens, not all digits, and is not normalized.
\<close>

theorem normalize_token_uppercase_counterexample:
  "length ''123E4567-E89B-12D3-A456-426614174000'' = 36
   \<and> list_all hex_or_hyphen ''123E4567-E89B-12D3-A456-426614174000''
   \<and> \<not> list_all is_digit ''123E4567-E89B-12D3-A456-426614174000''
   \<and> normalize_token ''123E4567-E89B-12D3-A456-426614174000'' \<noteq> ''<uuid>''"
proof -
  let ?t = "''123E4567-E89B-12D3-A456-426614174000''"
  have len: "length ?t = 36" by simp
  have hex: "list_all hex_or_hyphen ?t" by (simp add: hex_or_hyphen_def)
  have nd: "\<not> list_all is_digit ?t" by (simp add: is_digit_def)
  have nu: "\<not> list_all is_uuid_char ?t" by (simp add: is_uuid_char_def)
  have same: "normalize_token ?t = ?t"
    unfolding normalize_token_def by (simp only: nd nu simp_thms if_False)
  have "?t \<noteq> ''<uuid>''" by simp
  with same have "normalize_token ?t \<noteq> ''<uuid>''" by (simp only: simp_thms)
  with len hex nd show ?thesis by blast
qed

section \<open>Chain builder: conservation of counts\<close>

lemma chain_get_counts: "chain_get ch key = (counts ch key, snd (chain_get ch key))"
  by (simp add: chain_get_def counts_def split: option.splits)

lemma sum_update_incr:
  "sum_list (map snd (AList.update t (counter_get c t + 1) c)) = sum_list (map snd c) + 1"
proof (induction c)
  case Nil
  then show ?case by (simp add: counter_get_def)
next
  case (Cons p c)
  obtain k n where p: "p = (k, n)" by (cases p)
  show ?case
  proof (cases "k = t")
    case True
    then show ?thesis by (simp add: p counter_get_def)
  next
    case False
    with Cons show ?thesis by (simp add: p counter_get_def)
  qed
qed

lemma sum_update_Suc:
  "sum_list (map snd (AList.update t (Suc (counter_get c t)) c)) = Suc (sum_list (map snd c))"
  using sum_update_incr [of t c] by simp

lemma counts_chain_incr:
  "counts (chain_incr ch key t) c =
     (if c = key then AList.update t (counter_get (counts ch key) t + 1) (counts ch key)
      else counts ch c)"
  by (auto simp add: chain_incr_def chain_get_def counts_def update_conv' split: option.splits)

lemma total_chain_incr:
  "total_count (chain_incr ch key t) c = total_count ch c + (if c = key then 1 else 0)"
  by (simp add: total_count_def counts_chain_incr sum_update_Suc)

lemma total_fold_incr:
  "total_count (fold (\<lambda>i ch'. chain_incr ch' (f i) (g i)) is ch) c
     = total_count ch c + length (filter (\<lambda>i. f i = c) is)"
  by (induction "is" arbitrary: ch) (auto simp add: total_chain_incr)

lemma slice_window: "slice xs i (i + k) = take k (take (k + 1) (drop i xs))"
  by (simp add: slice_def)

lemma total_add_sequence:
  "total_count (add_sequence k tokens ch) c
     = total_count ch c
       + length (filter (\<lambda>w. take k w = c) (spec_windows (k + 1) (pad k tokens)))"
proof -
  have len: "length (pad k tokens) - k = length (pad k tokens) + 1 - (k + 1)" by simp
  show ?thesis
    unfolding add_sequence_def Let_def total_fold_incr spec_windows_def len
    by (simp add: filter_map o_def slice_window)
qed

lemma total_build:
  "total_count (fold (add_sequence k) seqs ch) c
     = total_count ch c
       + sum_list (map (\<lambda>tokens. length (filter (\<lambda>w. take k w = c)
                                   (spec_windows (k + 1) (pad k tokens)))) seqs)"
  by (induction seqs arbitrary: ch) (auto simp add: total_add_sequence)

text \<open>
  Claim C5. For every context stored in the chain built with order \<open>k\<close>, the sum of its
  counts is the number of windows of length \<open>k + 1\<close> of the padded sequences that begin
  with that context; a context that is not stored begins no window.
\<close>

theorem chain_count_conservation:
  "(map_of (build_markov_chain token_sequences k) c = Some cnt
      \<longrightarrow> sum_list (map snd cnt) = window_count token_sequences k c)
   \<and> (map_of (build_markov_chain token_sequences k) c = None
      \<longrightarrow> window_count token_sequences k c = 0)"
proof -
  have "total_count (build_markov_chain token_sequences k) c = window_count token_sequences k c"
    unfolding build_markov_chain_def window_count_def total_build
    by (simp add: total_count_def counts_def)
  then show ?thesis
    by (auto simp add: total_count_def counts_def)
qed

theorem chain_count_conservation_witness:
  "map_of (build_markov_chain
             [[''api'', ''v1'', ''users'', ''<id>''], [''api'', ''v1'', ''orders'', ''<id>'']] 2)
      [''api'', ''v1''] = Some [(''users'', 1), (''orders'', 1)]
   \<and> window_count
        [[''api'', ''v1'', ''users'', ''<id>''], [''api'', ''v1'', ''orders'', ''<id>'']] 2
        [''api'', ''v1''] = 2"
proof -
  let ?seqs = "[[''api'', ''v1'', ''users'', ''<id>''], [''api'', ''v1'', ''orders'', ''<id>'']]"
  have m: "map_of (build_markov_chain ?seqs 2) [''api'', ''v1'']
             = Some [(''users'', 1), (''orders'', 1)]"
    by code_simp
  from chain_count_conservation [of ?seqs 2 "[''api'', ''v1'']" "[(''users'', 1), (''orders'', 1)]"] m
  have "sum_list (map snd [(''users'', 1::nat), (''orders'', 1)]) = window_count ?seqs 2 [''api'', ''v1'']"
    by blast
  then have "window_count ?seqs 2 [''api'', ''v1''] = 2" by simp
  with m show ?thesis by (rule conjI)
qed

section \<open>Validator\<close>

text \<open>
  Claim C6. A probe is valid exactly when the response status is 200, 401 or 403; any
  other status is invalid and reported with that status; every failure of the transport
  is invalid with no status, whatever its kind.
\<close>

theorem validate_candidate_classification:
  "validate_candidate http_get base_url candidate static_pattern =
     (case http_get (rstrip CHR ''/'' base_url @ candidate @ static_pattern) of
        Response status \<Rightarrow> (status = 200 \<or> status = 401 \<or> status = 403, Some status)
      | Raised e \<Rightarrow> (False, None))"
  by (simp add: validate_candidate_def split: http_outcome.splits)

section \<open>Candidate generator: the lookup at the first positions\<close>

text \<open>
  Claim C1 says that a state of fewer than \<open>order\<close> tokens is looked up padded on the left
  with \<open><START>\<close>, as the chain builder and the scorer pad. The generator does not pad:
  for the seed \<open>/api/v1\<close> and order 2, the state at position 0 is the single token
  \<open>api\<close>, which is no key of the chain, so nothing is predicted there, although the
  padded context \<open>(<START>, api)\<close> is stored with the successor \<open>v1\<close>. The only
  candidate comes from position 1.
\<close>

theorem generate_candidates_first_position:
  "current_state [''api'', ''v1''] 0 2 = [''api'']
   \<and> predict_next_tokens (build_markov_chain [[''api'', ''v1'']] 2)
         (current_state [''api'', ''v1''] 0 2) 3 = []
   \<and> predict_next_tokens (build_markov_chain [[''api'', ''v1'']] 2) [START, ''api''] 3
         = [(''v1'', 1)]
   \<and> generate_candidates [[''api'', ''v1'']] (build_markov_chain [[''api'', ''v1'']] 2)
         [''admin''] 2 = {''/api/v1/admin''}"
proof -
  let ?ch = "build_markov_chain [[''api'', ''v1'']] 2"
  have a: "current_state [''api'', ''v1''] 0 2 = [''api'']" by code_simp
  have b: "predict_next_tokens ?ch (current_state [''api'', ''v1''] 0 2) 3 = []" by code_simp
  have c: "predict_next_tokens ?ch [START, ''api''] 3 = [(''v1'', 1)]" by code_simp
  have d: "generate_candidates [[''api'', ''v1'']] ?ch [''admin''] 2 = {''/api/v1/admin''}"
    by code_simp
  from a b c d show ?thesis by blast
qed

section \<open>Scorer: the chain after a scoring\<close>

lemma map_of_empty_entries:
  "map_of (empty_entries ks) c = (if c \<in> set ks then Some [] else None)"
  by (induction ks) (auto simp add: empty_entries_def)

lemma counts_append_empty: "counts (ch @ empty_entries ks) c = counts ch c"
  by (simp add: counts_def map_add_def map_of_empty_entries split: option.splits)

lemma chain_get_absent:
  "map_of ch key = None \<Longrightarrow> chain_get ch key = ([], ch @ empty_entries [key])"
  by (simp add: chain_get_def empty_entries_def)

lemma chain_get_present:
  "map_of ch key = Some c \<Longrightarrow> chain_get ch key = (c, ch)"
  by (simp add: chain_get_def)

lemma chain_get_twice:
  "chain_get ch key = (c1, ch1) \<Longrightarrow> chain_get ch1 key = (c1, ch1)"
  by (auto simp add: chain_get_def map_add_def split: option.splits)

lemma chain_get_fst: "fst (chain_get ch key) = counts ch key"
  by (simp add: chain_get_def counts_def split: option.splits)

lemma extends_refl: "extends ch ch"
  unfolding extends_def by (intro exI [of _ "[]"]) (simp add: empty_entries_def)

lemma extends_chain_get: "extends ch (snd (chain_get ch key))"
proof (cases "map_of ch key")
  case None
  then have "key \<notin> fst ` set ch" by (simp add: map_of_eq_None_iff)
  with None show ?thesis
    unfolding extends_def by (intro exI [of _ "[key]"]) (simp add: chain_get_absent)
next
  case (Some c)
  then show ?thesis by (simp add: chain_get_present extends_refl)
qed

lemma keys_empty_entries: "fst ` set (empty_entries ks) = set ks"
  by (induction ks) (auto simp add: empty_entries_def)

lemma extends_trans:
  assumes "extends ch ch1" and "extends ch1 ch2"
  shows "extends ch ch2"
proof -
  from assms(1) obtain ks where a: "ch1 = ch @ empty_entries ks" "distinct ks"
    "set ks \<inter> fst ` set ch = {}" unfolding extends_def by blast
  from assms(2) obtain ks' where b: "ch2 = ch1 @ empty_entries ks'" "distinct ks'"
    "set ks' \<inter> fst ` set ch1 = {}" unfolding extends_def by blast
  have keys: "fst ` set ch1 = fst ` set ch \<union> set ks"
    by (simp add: a(1) image_Un keys_empty_entries)
  have "ch2 = ch @ empty_entries (ks @ ks')"
    by (simp add: a(1) b(1) empty_entries_def)
  moreover have "distinct (ks @ ks')"
    using a(2) b(2) b(3) keys by auto
  moreover have "set (ks @ ks') \<inter> fst ` set ch = {}"
    using a(3) b(3) keys by auto
  ultimately show ?thesis unfolding extends_def by blast
qed

lemma extends_counts: "extends ch ch' \<Longrightarrow> counts ch' = counts ch"
  unfolding extends_def by (auto simp add: counts_append_empty)

lemma window_term_counts:
  "counts ch' = counts ch \<Longrightarrow> window_term ch' = window_term ch"
  by (intro ext) (simp add: window_term_def total_count_def)

lemma window_terms_counts:
  assumes "counts ch' = counts ch"
  shows "window_terms ch' = window_terms ch"
  unfolding window_terms_def window_term_counts [OF assms] ..

lemma score_loop_step:
  "score_loop tokens order V alpha (i # is) prob ch =
     (case window_term ch V alpha (slice tokens (i - order) i) (tokens ! i) of
        Inl e \<Rightarrow> (Inl e, snd (chain_get ch (slice tokens (i - order) i)))
      | Inr q \<Rightarrow> score_loop tokens order V alpha is (float_mul prob q)
                   (snd (chain_get ch (slice tokens (i - order) i))))"
proof -
  obtain c1 ch1 where g: "chain_get ch (slice tokens (i - order) i) = (c1, ch1)"
    by (cases "chain_get ch (slice tokens (i - order) i)")
  have g2: "chain_get ch1 (slice tokens (i - order) i) = (c1, ch1)"
    using g by (rule chain_get_twice)
  have c1: "c1 = counts ch (slice tokens (i - order) i)"
    using chain_get_fst [of ch "slice tokens (i - order) i"] g by simp
  have s: "snd (chain_get ch (slice tokens (i - order) i)) = ch1"
    using g by simp
  show ?thesis
    unfolding s by (simp add: g g2 Let_def window_term_def total_count_def c1 [symmetric])
qed

lemma score_loop_extends:
  "extends ch (snd (score_loop tokens order V alpha is prob ch))"
proof (induction "is" arbitrary: prob ch)
  case Nil
  then show ?case by (simp add: extends_refl)
next
  case (Cons i "is")
  let ?key = "slice tokens (i - order) i"
  have e: "extends ch (snd (chain_get ch ?key))" by (rule extends_chain_get)
  show ?case
  proof (cases "window_term ch V alpha ?key (tokens ! i)")
    case (Inl err)
    then have "snd (score_loop tokens order V alpha (i # is) prob ch) = snd (chain_get ch ?key)"
      by (simp add: score_loop_step del: score_loop.simps)
    with e show ?thesis by simp
  next
    case (Inr q)
    then have "score_loop tokens order V alpha (i # is) prob ch =
        score_loop tokens order V alpha is (float_mul prob q) (snd (chain_get ch ?key))"
      by (simp add: score_loop_step del: score_loop.simps)
    with extends_trans [OF e Cons.IH] show ?thesis by simp
  qed
qed

lemma score_loop_value:
  "fst (score_loop tokens order V alpha is prob ch) =
     multiply_terms (window_terms ch V alpha order tokens is) prob"
proof (induction "is" arbitrary: prob ch)
  case Nil
  then show ?case by (simp add: window_terms_def)
next
  case (Cons i "is")
  let ?key = "slice tokens (i - order) i"
  let ?ch1 = "snd (chain_get ch ?key)"
  have same: "window_terms ?ch1 = window_terms ch"
    by (rule window_terms_counts [OF extends_counts [OF extends_chain_get]])
  show ?case
  proof (cases "window_term ch V alpha ?key (tokens ! i)")
    case (Inl err)
    then have "fst (score_loop tokens order V alpha (i # is) prob ch) = Inl err"
      by (simp add: score_loop_step del: score_loop.simps)
    moreover have "multiply_terms (window_terms ch V alpha order tokens (i # is)) prob = Inl err"
      using Inl by (simp add: window_terms_def)
    ultimately show ?thesis by simp
  next
    case (Inr q)
    then have "fst (score_loop tokens order V alpha (i # is) prob ch) =
        fst (score_loop tokens order V alpha is (float_mul prob q) ?ch1)"
      by (simp add: score_loop_step del: score_loop.simps)
    also have "\<dots> = multiply_terms (window_terms ch V alpha order tokens is) (float_mul prob q)"
      unfolding Cons.IH same ..
    also have "\<dots> = multiply_terms (window_terms ch V alpha order tokens (i # is)) prob"
      using Inr by (simp add: window_terms_def)
    finally show ?thesis .
  qed
qed

lemma candidate_probability_extends:
  "extends ch (snd (candidate_probability candidate ch order vocab_size alpha))"
  unfolding candidate_probability_def Let_def by (rule score_loop_extends)

lemma candidate_probability_value:
  "fst (candidate_probability candidate ch order vocab_size alpha) =
     multiply_terms
       (window_terms ch (vocab_size_of vocab_size ch) alpha order (pad order (tokenize candidate))
          [order ..< length (pad order (tokenize candidate))]) 1"
  unfolding candidate_probability_def Let_def by (rule score_loop_value)

section \<open>Scorer: every factor is a probability\<close>

lemma float_round_grid:
  assumes "0 < x"
  shows "\<exists>n::int. float_round x * 2 ^ 1074 = of_int n"
proof -
  let ?y = "x * 2 ^ 1074"
  have "float_round x * 2 ^ 1074
          = of_int (round_half_even (?y / 2 ^ float_scale ?y) * 2 ^ float_scale ?y)"
    by (simp add: float_round_pos_eq [OF assms])
  then show ?thesis ..
qed

lemma positive_double_ge:
  assumes "0 < x" and "float_round x = x"
  shows "1 / 2 ^ 1074 \<le> x"
proof -
  from float_round_grid [OF assms(1)] assms(2)
  obtain n :: int where n: "x * 2 ^ 1074 = of_int n" by auto
  have "0 < x * 2 ^ 1074" using assms(1) by simp
  then have "0 < n" unfolding n by simp
  then have "1 \<le> n" by simp
  then have "(1::rat) \<le> of_int n" by simp
  then have "1 \<le> x * 2 ^ 1074" by (simp only: n)
  then show ?thesis by (simp add: pos_divide_le_eq)
qed

lemma float_round_min: "float_round (1 / 2 ^ 1074) = 1 / 2 ^ 1074"
  using float_round_exact [of 1 1074] by simp

lemma float_round_ge_min:
  assumes "1 / 2 ^ 1074 \<le> x"
  shows "1 / 2 ^ 1074 \<le> float_round x"
proof -
  have "float_round (1 / 2 ^ 1074) \<le> float_round x"
    using assms by (intro float_round_mono) simp_all
  then show ?thesis by (simp only: float_round_min)
qed

lemma float_of_nat_nonneg: "0 \<le> float_of_nat n"
  unfolding float_of_nat_def by (rule float_round_nonneg) simp

lemma float_of_nat_mono: "m \<le> n \<Longrightarrow> float_of_nat m \<le> float_of_nat n"
  unfolding float_of_nat_def by (rule float_round_mono) simp_all

lemma float_of_nat_ge_one: "1 \<le> n \<Longrightarrow> 1 \<le> float_of_nat n"
  unfolding float_of_nat_def by (rule float_round_ge_one) simp

lemma counter_get_le_sum: "counter_get c t \<le> sum_list (map snd c)"
proof (cases "map_of c t")
  case None
  then show ?thesis by (simp add: counter_get_def)
next
  case (Some n)
  then have "(t, n) \<in> set c" by (rule map_of_SomeD)
  then have "n \<in> set (map snd c)" by force
  then have "n \<le> sum_list (map snd c)" by (simp add: member_le_sum_list)
  with Some show ?thesis by (simp add: counter_get_def)
qed

lemma denominator_positive:
  assumes "0 < alpha" and "float_round alpha = alpha" and "1 \<le> V"
  shows "0 < float_add (float_of_nat T) (float_mul alpha (float_of_nat V))"
    and "alpha \<le> float_mul alpha (float_of_nat V)"
proof -
  have amin: "1 / 2 ^ 1074 \<le> alpha" using assms(1,2) by (rule positive_double_ge)
  have v: "1 \<le> float_of_nat V" using assms(3) by (rule float_of_nat_ge_one)
  have av: "alpha \<le> alpha * float_of_nat V"
    using assms(1) v by (simp add: mult_le_cancel_left1)
  have "float_round alpha \<le> float_round (alpha * float_of_nat V)"
    using assms(1) av by (intro float_round_mono) simp_all
  then show m: "alpha \<le> float_mul alpha (float_of_nat V)"
    by (simp add: float_mul_def assms(2))
  have "1 / 2 ^ 1074 \<le> float_of_nat T + float_mul alpha (float_of_nat V)"
    using amin m float_of_nat_nonneg [of T] by simp
  then have "1 / 2 ^ 1074 \<le> float_add (float_of_nat T) (float_mul alpha (float_of_nat V))"
    unfolding float_add_def by (rule float_round_ge_min)
  moreover have "(0::rat) < 1 / 2 ^ 1074" by simp
  ultimately show "0 < float_add (float_of_nat T) (float_mul alpha (float_of_nat V))"
    by (rule less_le_trans [rotated])
qed

lemma window_term_probability:
  assumes "0 < alpha" and "float_round alpha = alpha" and "1 \<le> V"
  shows "\<exists>q. window_term ch V alpha key t = Inr q \<and> 0 \<le> q \<and> q \<le> 1"
proof -
  define c where "c = counter_get (counts ch key) t"
  define T where "T = total_count ch key"
  define num where "num = float_add (float_of_nat c) alpha"
  define den where "den = float_add (float_of_nat T) (float_mul alpha (float_of_nat V))"
  have dpos: "0 < den" unfolding den_def using assms by (rule denominator_positive(1))
  have "c \<le> T" unfolding c_def T_def total_count_def by (rule counter_get_le_sum)
  then have ct: "float_of_nat c \<le> float_of_nat T" by (rule float_of_nat_mono)
  have s0: "0 \<le> float_of_nat c + alpha"
    using float_of_nat_nonneg [of c] assms(1) by simp
  have "float_of_nat c + alpha \<le> float_of_nat T + float_mul alpha (float_of_nat V)"
    using ct denominator_positive(2) [OF assms] by simp
  with s0 have nd: "num \<le> den"
    unfolding num_def den_def float_add_def by (intro float_round_mono)
  have n0: "0 \<le> num" unfolding num_def float_add_def using s0 by (rule float_round_nonneg)
  have q0: "0 \<le> num / den" using n0 dpos by simp
  have q1: "num / den \<le> 1" using nd dpos by simp
  have w: "window_term ch V alpha key t = Inr (float_round (num / den))"
    using dpos by (simp add: window_term_def float_div_def num_def den_def c_def T_def)
  show ?thesis
    using w float_round_nonneg [OF q0] float_round_le_one [OF q0 q1] by blast
qed

lemma multiply_terms_probability:
  assumes "\<And>t. t \<in> set ts \<Longrightarrow> \<exists>q. t = Inr q \<and> 0 \<le> q \<and> q \<le> 1"
    and "0 \<le> p" and "p \<le> 1"
  shows "\<exists>r. multiply_terms ts p = Inr r \<and> 0 \<le> r \<and> r \<le> 1"
  using assms
proof (induction ts arbitrary: p)
  case Nil
  then show ?case by simp
next
  case (Cons t ts)
  from Cons.prems(1) [of t] obtain q where q: "t = Inr q" "0 \<le> q" "q \<le> 1" by auto
  have a: "0 \<le> p * q" using Cons.prems(2) q(2) by simp
  have b: "p * q \<le> 1" using Cons.prems(2,3) q(2,3) by (simp add: mult_le_one)
  have "\<exists>r. multiply_terms ts (float_mul p q) = Inr r \<and> 0 \<le> r \<and> r \<le> 1"
    unfolding float_mul_def
    using Cons.prems(1) float_round_nonneg [OF a] float_round_le_one [OF a b]
    by (intro Cons.IH) auto
  then show ?case by (simp add: q(1))
qed

lemma window_terms_probability:
  assumes "0 < alpha" and "float_round alpha = alpha" and "1 \<le> V"
  shows "\<exists>r. multiply_terms (window_terms ch V alpha order tokens is) 1 = Inr r
             \<and> 0 \<le> r \<and> r \<le> 1"
proof (rule multiply_terms_probability)
  fix t
  assume "t \<in> set (window_terms ch V alpha order tokens is)"
  then obtain i where "t = window_term ch V alpha (slice tokens (i - order) i) (tokens ! i)"
    by (auto simp add: window_terms_def)
  with window_term_probability [OF assms] show "\<exists>q. t = Inr q \<and> 0 \<le> q \<and> q \<le> 1"
    by simp
qed simp_all

section \<open>Vocabulary\<close>

lemma vocab_fold:
  "fold (\<lambda>(key, c) v. v \<union> set (map fst c)) ch A = A \<union> (\<Union>(k, c)\<in>set ch. fst ` set c)"
  by (induction ch arbitrary: A) auto

lemma vocab_eq: "vocab ch = (\<Union>(k, c)\<in>set ch. fst ` set c)"
  unfolding vocab_def vocab_fold by simp

lemma finite_vocab: "finite (vocab ch)"
  by (auto simp add: vocab_eq)

lemma vocab_empty_entries: "vocab (ch @ empty_entries ks) = vocab ch"
  by (auto simp add: vocab_eq empty_entries_def)

lemma vocab_extends: "extends ch ch' \<Longrightarrow> vocab ch' = vocab ch"
  unfolding extends_def by (auto simp add: vocab_empty_entries)

lemma vocab_update_new:
  "key \<in> fst ` set ch \<Longrightarrow> fst ` set c' \<subseteq> vocab (AList.update key c' ch)"
  by (induction ch) (auto simp add: vocab_eq)

lemma vocab_update_old:
  "map_of ch key = Some c \<Longrightarrow> fst ` set c \<subseteq> fst ` set c'
     \<Longrightarrow> vocab ch \<subseteq> vocab (AList.update key c' ch)"
proof (induction ch)
  case Nil
  then show ?case by simp
next
  case (Cons p ch)
  obtain k d where p: "p = (k, d)" by (cases p)
  show ?case
  proof (cases "k = key")
    case True
    with Cons.prems p have "d = c" by simp
    with True p Cons.prems(2) show ?thesis by (auto simp add: vocab_eq)
  next
    case False
    with Cons p have "vocab ch \<subseteq> vocab (AList.update key c' ch)" by simp
    with False p show ?thesis by (auto simp add: vocab_eq)
  qed
qed

lemma chain_get_stored:
  "map_of (snd (chain_get ch key)) key = Some (counts ch key)"
  by (auto simp add: chain_get_def counts_def map_add_def split: option.splits)

lemma keys_update: "fst ` set (AList.update t v c) = insert t (fst ` set c)"
  by (induction c) auto

lemma vocab_chain_incr:
  shows "t \<in> vocab (chain_incr ch key t)" and "vocab ch \<subseteq> vocab (chain_incr ch key t)"
proof -
  define c where "c = counts ch key"
  define ch1 where "ch1 = snd (chain_get ch key)"
  define c' where "c' = AList.update t (counter_get c t + 1) c"
  have g: "chain_get ch key = (c, ch1)"
    unfolding c_def ch1_def by (rule chain_get_counts)
  have incr: "chain_incr ch key t = AList.update key c' ch1"
    by (simp add: chain_incr_def g c'_def)
  have stored: "map_of ch1 key = Some c"
    unfolding c_def ch1_def by (rule chain_get_stored)
  then have "(key, c) \<in> set ch1" by (rule map_of_SomeD)
  then have "key \<in> fst ` set ch1" by force
  then have new: "fst ` set c' \<subseteq> vocab (AList.update key c' ch1)" by (rule vocab_update_new)
  have keys: "fst ` set c' = insert t (fst ` set c)"
    unfolding c'_def by (rule keys_update)
  from new keys show "t \<in> vocab (chain_incr ch key t)" unfolding incr by blast
  have "fst ` set c \<subseteq> fst ` set c'" unfolding keys by blast
  with stored have "vocab ch1 \<subseteq> vocab (AList.update key c' ch1)" by (rule vocab_update_old)
  moreover have "vocab ch1 = vocab ch"
    unfolding ch1_def by (rule vocab_extends [OF extends_chain_get])
  ultimately show "vocab ch \<subseteq> vocab (chain_incr ch key t)" unfolding incr by simp
qed

lemma vocab_fold_incr:
  "vocab ch \<subseteq> vocab (fold (\<lambda>i ch'. chain_incr ch' (f i) (g i)) is ch)"
proof (induction "is" arbitrary: ch)
  case Nil
  then show ?case by simp
next
  case (Cons i "is")
  have "vocab ch \<subseteq> vocab (chain_incr ch (f i) (g i))" by (rule vocab_chain_incr(2))
  also have "\<dots> \<subseteq> vocab (fold (\<lambda>i ch'. chain_incr ch' (f i) (g i)) is (chain_incr ch (f i) (g i)))"
    by (rule Cons.IH)
  finally show ?case by simp
qed

lemma vocab_add_sequence: "vocab ch \<subseteq> vocab (add_sequence k tokens ch)"
  unfolding add_sequence_def Let_def by (rule vocab_fold_incr)

lemma END_add_sequence: "END \<in> vocab (add_sequence k tokens ch)"
proof -
  let ?ts = "pad k tokens"
  let ?n = "length tokens"
  let ?step = "\<lambda>i ch'. chain_incr ch' (slice ?ts i (i + k)) (?ts ! (i + k))"
  have len: "length ?ts - k = Suc ?n" by (simp add: pad_def)
  have last: "?ts ! (?n + k) = END"
    by (simp add: pad_def nth_append)
  have "add_sequence k tokens ch = fold ?step [0 ..< Suc ?n] ch"
    by (simp only: add_sequence_def Let_def len)
  also have "\<dots> = ?step ?n (fold ?step [0 ..< ?n] ch)" by simp
  finally have "add_sequence k tokens ch
      = chain_incr (fold ?step [0 ..< ?n] ch) (slice ?ts ?n (?n + k)) END"
    by (simp only: last)
  then show ?thesis by (simp only: vocab_chain_incr(1))
qed

lemma vocab_fold_add_sequence:
  "vocab ch \<subseteq> vocab (fold (add_sequence k) seqs ch)"
proof (induction seqs arbitrary: ch)
  case Nil
  then show ?case by simp
next
  case (Cons s seqs)
  have "vocab ch \<subseteq> vocab (add_sequence k s ch)" by (rule vocab_add_sequence)
  also have "\<dots> \<subseteq> vocab (fold (add_sequence k) seqs (add_sequence k s ch))" by (rule Cons.IH)
  finally show ?case by simp
qed

lemma END_build:
  assumes "token_sequences \<noteq> []"
  shows "END \<in> vocab (build_markov_chain token_sequences k)"
proof -
  from assms obtain s seqs where ts: "token_sequences = s # seqs" by (cases token_sequences) auto
  have "END \<in> vocab (add_sequence k s [])" by (rule END_add_sequence)
  with vocab_fold_add_sequence [of "add_sequence k s []" k seqs]
  show ?thesis by (auto simp add: build_markov_chain_def ts)
qed

lemma vocab_size_build:
  assumes "token_sequences \<noteq> []"
  shows "1 \<le> card (vocab (build_markov_chain token_sequences k))"
proof -
  have "0 < card (vocab (build_markov_chain token_sequences k))"
    using END_build [OF assms] finite_vocab by (auto simp add: card_gt_0_iff)
  then show ?thesis by simp
qed

lemma vocab_size_of_extends:
  "extends ch ch' \<Longrightarrow> vocab_size_of vocab_size ch' = vocab_size_of vocab_size ch"
  by (simp add: vocab_size_of_def vocab_extends split: option.splits)

lemma candidate_probability_counts:
  assumes "extends ch ch'"
  shows "fst (candidate_probability candidate ch' order vocab_size alpha)
           = fst (candidate_probability candidate ch order vocab_size alpha)"
  unfolding candidate_probability_value vocab_size_of_extends [OF assms]
    window_terms_counts [OF extends_counts [OF assms]] ..

section \<open>Scorer: exact factors and the chain of a scoring without error\<close>

lemma float_of_nat_small: "n < 2 ^ 53 \<Longrightarrow> float_of_nat n = of_nat n"
  unfolding float_of_nat_def by (rule float_round_of_nat)

lemma float_of_nat_zero: "float_of_nat 0 = 0"
  by (simp add: float_of_nat_def float_round_zero)

lemma window_term_small:
  assumes "1 \<le> V" and "total_count ch key + V < 2 ^ 53"
  shows "window_term ch V 1 key t
           = Inr (float_round (of_nat (counter_get (counts ch key) t + 1)
                                 / of_nat (total_count ch key + V)))"
proof -
  define c where "c = counter_get (counts ch key) t"
  define T where "T = total_count ch key"
  have "c \<le> T" unfolding c_def T_def total_count_def by (rule counter_get_le_sum)
  with assms have small: "c < 2 ^ 53" "c + 1 < 2 ^ 53" "T < 2 ^ 53" "V < 2 ^ 53" "T + V < 2 ^ 53"
    by (simp_all add: T_def)
  have "of_nat c + (1::rat) = of_nat (c + 1)" by simp
  then have num: "float_add (float_of_nat c) 1 = of_nat (c + 1)"
    unfolding float_add_def float_of_nat_small [OF small(1)]
    by (simp only: float_round_of_nat [OF small(2)])
  have "1 * (of_nat V :: rat) = of_nat V" by simp
  then have mul: "float_mul 1 (float_of_nat V) = of_nat V"
    unfolding float_mul_def float_of_nat_small [OF small(4)]
    by (simp only: float_round_of_nat [OF small(4)])
  have "of_nat T + (of_nat V :: rat) = of_nat (T + V)" by simp
  then have den: "float_add (float_of_nat T) (float_mul 1 (float_of_nat V)) = of_nat (T + V)"
    unfolding float_add_def mul float_of_nat_small [OF small(3)]
    by (simp only: float_round_of_nat [OF small(5)])
  have "(of_nat (T + V) :: rat) \<noteq> 0" using assms(1) by simp
  then show ?thesis
    unfolding window_term_def c_def [symmetric] T_def [symmetric] num den float_div_def
    by (simp only: if_False)
qed

lemma counts_absent: "map_of ch key = None \<Longrightarrow> counts ch key = []"
  by (simp add: counts_def)


lemma score_candidates_filter:
  assumes "extends ch ch0"
    and "score_candidates candidates ch0 V threshold scored0 = (Inr scored, ch')"
  shows "list_all (\<lambda>c. \<not> isl (fst (candidate_probability c ch 2 (Some V) 1))) candidates
         \<and> scored = scored0 @ filter (\<lambda>(c, p). threshold \<le> p)
                (map (\<lambda>c. (c, projr (fst (candidate_probability c ch 2 (Some V) 1)))) candidates)"
  using assms
proof (induction candidates arbitrary: ch0 scored0)
  case Nil
  then show ?case by simp
next
  case (Cons c cs)
  obtain r ch1 where cp: "candidate_probability c ch0 2 (Some V) 1 = (r, ch1)"
    by (cases "candidate_probability c ch0 2 (Some V) 1")
  have same: "fst (candidate_probability c ch 2 (Some V) 1) = r"
    using candidate_probability_counts [OF Cons.prems(1), of c 2 "Some V" 1] cp by simp
  have e1: "extends ch ch1"
    using extends_trans [OF Cons.prems(1) candidate_probability_extends [of ch0 c 2 "Some V" 1]] cp
    by simp
  show ?case
  proof (cases r)
    case (Inl err)
    with Cons.prems(2) cp show ?thesis by simp
  next
    case (Inr p)
    let ?s1 = "if threshold \<le> p then scored0 @ [(c, p)] else scored0"
    from Cons.prems(2) cp Inr
    have "score_candidates cs ch1 V threshold ?s1 = (Inr scored, ch')" by simp
    from Cons.IH [OF e1 this] same Inr show ?thesis by simp
  qed
qed

lemma score_candidates_returns:
  assumes "1 \<le> V"
  shows "\<exists>scored ch'. score_candidates candidates ch V threshold scored0 = (Inr scored, ch')"
proof (induction candidates arbitrary: ch scored0)
  case Nil
  then show ?case by simp
next
  case (Cons c cs)
  have one: "float_round 1 = 1" by (rule float_round_one)
  have v: "1 \<le> vocab_size_of (Some V) ch" using assms by (simp add: vocab_size_of_def)
  obtain r ch1 where cp: "candidate_probability c ch 2 (Some V) 1 = (r, ch1)"
    by (cases "candidate_probability c ch 2 (Some V) 1")
  have "\<exists>p. fst (candidate_probability c ch 2 (Some V) 1) = Inr p"
    using window_terms_probability [OF _ one v, of ch 2]
    unfolding candidate_probability_value by (simp del: One_nat_def) blast
  with cp obtain p where r: "r = Inr p" by auto
  from Cons.IH [of ch1 "if threshold \<le> p then scored0 @ [(c, p)] else scored0"]
  show ?case by (simp add: cp r)
qed

section \<open>Scorer: a chain of four seeds\<close>

lemma seeds_chain:
  "build_markov_chain seeds 2 =
     [([START, START], [(''a'', 2), (''b'', 1), (''c'', 1)]),
      ([START, ''a''], [(END, 2)]),
      ([START, ''b''], [(END, 1)]),
      ([START, ''c''], [(END, 1)])]"
  by code_simp


lemma seeds_start: 
  "counts (build_markov_chain seeds 2) [START, START] = [(''a'', 2), (''b'', 1), (''c'', 1)]"
  by code_simp

lemma seeds_a: "counts (build_markov_chain seeds 2) [START, ''a''] = [(END, 2)]"
  by code_simp

lemma seeds_x: "map_of (build_markov_chain seeds 2) [u, ''x''] = None"
  unfolding seeds_chain by (simp add: START_def)

lemma float_round_dyadic:
  "float_round (1 / 2) = 1 / 2" "float_round (1 / 4) = 1 / 4" "float_round (1 / 8) = 1 / 8"
  "float_round (3 / 8) = 3 / 8" "float_round (3 / 16) = 3 / 16" "float_round (1 / 32) = 1 / 32"
  using float_round_exact [of 1 1] float_round_exact [of 1 2] float_round_exact [of 1 3]
    float_round_exact [of 3 3] float_round_exact [of 3 4] float_round_exact [of 1 5]
  by simp_all

lemma term_start_a: "window_term (build_markov_chain seeds 2) 4 1 [START, START] ''a'' = Inr (3 / 8)"
proof -
  have "window_term (build_markov_chain seeds 2) 4 1 [START, START] ''a''
          = Inr (float_round (of_nat (2 + 1) / of_nat (4 + 4)))"
    by (subst window_term_small) (simp_all add: seeds_start total_count_def counter_get_def)
  then show ?thesis by (simp add: float_round_dyadic)
qed

lemma term_start_x: "window_term (build_markov_chain seeds 2) 4 1 [START, START] ''x'' = Inr (1 / 8)"
proof -
  have "window_term (build_markov_chain seeds 2) 4 1 [START, START] ''x''
          = Inr (float_round (of_nat (0 + 1) / of_nat (4 + 4)))"
    by (subst window_term_small) (simp_all add: seeds_start total_count_def counter_get_def)
  then show ?thesis by (simp add: float_round_dyadic)
qed

lemma term_a_END: "window_term (build_markov_chain seeds 2) 4 1 [START, ''a''] END = Inr (1 / 2)"
proof -
  have "window_term (build_markov_chain seeds 2) 4 1 [START, ''a''] END
          = Inr (float_round (of_nat (2 + 1) / of_nat (2 + 4)))"
    by (subst window_term_small) (simp_all add: seeds_a total_count_def counter_get_def)
  then show ?thesis by (simp add: float_round_dyadic)
qed

lemma term_x: "window_term (build_markov_chain seeds 2) 4 1 [u, ''x''] t = Inr (1 / 4)"
proof -
  have c: "counts (build_markov_chain seeds 2) [u, ''x''] = []"
    using seeds_x by (rule counts_absent)
  have "window_term (build_markov_chain seeds 2) 4 1 [u, ''x''] t
          = Inr (float_round (of_nat (0 + 1) / of_nat (0 + 4)))"
    by (subst window_term_small) (simp_all add: c total_count_def counter_get_def)
  then show ?thesis by (simp add: float_round_dyadic)
qed

lemma tokens_a: "pad 2 (tokenize ''/a'') = [START, START, ''a'', END]"
  by code_simp

lemma tokens_x: "pad 2 (tokenize ''/x'') = [START, START, ''x'', END]"
  by code_simp

lemma upt_2_4: "[2 ..< 4] = [2, 3]"
  by code_simp

lemma score_a:
  "fst (candidate_probability ''/a'' (build_markov_chain seeds 2) 2 (Some 4) 1) = Inr (3 / 16)"
  unfolding candidate_probability_value tokens_a
  by (simp add: vocab_size_of_def window_terms_def upt_2_4 slice_def
      term_start_a term_a_END float_mul_def float_round_dyadic)

lemma score_x:
  "fst (candidate_probability ''/x'' (build_markov_chain seeds 2) 2 (Some 4) 1) = Inr (1 / 32)"
  unfolding candidate_probability_value tokens_x
  by (simp add: vocab_size_of_def window_terms_def upt_2_4 slice_def
      term_start_x term_x float_mul_def float_round_dyadic)

section \<open>Scorer: underflow\<close>








section \<open>Scorer: the chain is extended, not left as it was\<close>



section \<open>Scorer: bounds of the score\<close>




section \<open>Scorer: contexts that were never observed\<close>



section \<open>Scorer: the threshold\<close>

text \<open>
  Claim C8. Step 5 keeps exactly the candidates whose probability, as the scorer computes
  it, is at least the threshold, each with that probability and in the order scored: a
  probability equal to the threshold is kept, a smaller one is dropped.
\<close>

theorem threshold_filter_inclusive:
  assumes "score_candidates candidates ch vocab_size threshold [] = (Inr scored, ch')"
  shows "list_all (\<lambda>c. \<not> isl (fst (candidate_probability c ch 2 (Some vocab_size) 1))) candidates
         \<and> scored = filter (\<lambda>(c, p). threshold \<le> p)
              (map (\<lambda>c. (c, projr (fst (candidate_probability c ch 2 (Some vocab_size) 1))))
                 candidates)"
  using score_candidates_filter [OF extends_refl assms] by simp

theorem threshold_filter_inclusive_witness:
  "\<exists>ch'. score_candidates [''/a'', ''/x''] (build_markov_chain seeds 2) 4 (3 / 16) []
           = (Inr [(''/a'', 3 / 16)], ch')"
proof -
  obtain scored ch' where
    sc: "score_candidates [''/a'', ''/x''] (build_markov_chain seeds 2) 4 (3 / 16) []
           = (Inr scored, ch')"
    using score_candidates_returns [of 4] by (metis one_le_numeral)
  from threshold_filter_inclusive [OF sc]
  have "scored = [(''/a'', 3 / 16)]" by (simp add: score_a score_x)
  with sc show ?thesis by blast
qed

section \<open>Scorer: the empty chain\<close>

text \<open>
  Claim C10. A chain built from at least one sequence has \<open><END>\<close> in its vocabulary, so
  the computed vocabulary size is at least 1, every denominator of the scorer is positive
  for a positive \<open>alpha\<close>, and the scorer returns a probability. On the chain built from no
  sequence the computed vocabulary size is 0 and, with \<open>alpha = 1.0\<close>, the scorer raises
  \<open>ZeroDivisionError\<close> for every candidate.
\<close>

theorem scoring_needs_nonempty_chain:
  assumes "token_sequences \<noteq> []" and "0 < alpha" and "float_round alpha = alpha"
  shows "END \<in> vocab (build_markov_chain token_sequences k)
         \<and> 1 \<le> vocab_size_of None (build_markov_chain token_sequences k)
         \<and> 0 < float_add (float_of_nat (total_count (build_markov_chain token_sequences k) key))
                 (float_mul alpha
                    (float_of_nat (vocab_size_of None (build_markov_chain token_sequences k))))
         \<and> (\<exists>p. fst (candidate_probability candidate (build_markov_chain token_sequences k)
                      order None alpha) = Inr p)
         \<and> vocab_size_of None (build_markov_chain [] k) = 0
         \<and> fst (candidate_probability candidate (build_markov_chain [] k) order None 1)
             = Inl ZeroDivisionError"
proof -
  let ?ch = "build_markov_chain token_sequences k"
  have a: "END \<in> vocab ?ch" using assms(1) by (rule END_build)
  have b: "1 \<le> vocab_size_of None ?ch"
    using vocab_size_build [OF assms(1)] by (simp add: vocab_size_of_def)
  have c: "0 < float_add (float_of_nat (total_count ?ch key))
                 (float_mul alpha (float_of_nat (vocab_size_of None ?ch)))"
    using assms(2,3) b by (rule denominator_positive(1))
  have d: "\<exists>p. fst (candidate_probability candidate ?ch order None alpha) = Inr p"
    using window_terms_probability [OF assms(2,3) b]
    unfolding candidate_probability_value by blast
  have e: "vocab_size_of None (build_markov_chain [] k) = 0"
    by (simp add: vocab_size_of_def build_markov_chain_def vocab_def)
  let ?ts = "pad order (tokenize candidate)"
  have "order < length ?ts" by (simp add: pad_def)
  then have "[order ..< length ?ts] = order # [Suc order ..< length ?ts]"
    by (rule upt_conv_Cons)
  moreover have "window_term [] 0 1 key' t = Inl ZeroDivisionError" for key' t
    by (simp add: window_term_def counts_def total_count_def counter_get_def
        float_of_nat_zero float_mul_def float_add_def float_round_zero float_div_def)
  ultimately have f: "fst (candidate_probability candidate (build_markov_chain [] k) order None 1)
      = Inl ZeroDivisionError"
    unfolding candidate_probability_value e
    by (simp add: build_markov_chain_def window_terms_def)
  from a b c d e f show ?thesis by blast
qed

theorem scoring_needs_nonempty_chain_witness:
  "END \<in> vocab (build_markov_chain seeds 2)
   \<and> 1 \<le> vocab_size_of None (build_markov_chain seeds 2)
   \<and> 0 < float_add (float_of_nat (total_count (build_markov_chain seeds 2) [START, START]))
           (float_mul 1 (float_of_nat (vocab_size_of None (build_markov_chain seeds 2))))
   \<and> (\<exists>p. fst (candidate_probability ''/x'' (build_markov_chain seeds 2) 2 None 1) = Inr p)
   \<and> vocab_size_of None (build_markov_chain [] 2) = 0
   \<and> fst (candidate_probability ''/x'' (build_markov_chain [] 2) 2 None 1)
       = Inl ZeroDivisionError"
proof -
  have s: "seeds \<noteq> []" by (simp add: seeds_def)
  have a: "(0::rat) < 1" by simp
  show ?thesis by (rule scoring_needs_nonempty_chain [OF s a float_round_one])
qed

end
